theory Spec2Isabelle
  imports Main "HOL-Library.Sublist"
begin

section \<open>Python string primitives used by the scripts\<close>

text \<open>
  A buffer is the text that \<^verbatim>\<open>f.read()\<close> returns, modelled as a \<^typ>\<open>string\<close>
  (one \<^typ>\<open>char\<close> per character, characters below 256).
  \<^verbatim>\<open>str.find\<close> returns the index of the first occurrence or \<^verbatim>\<open>-1\<close>; the
  sentinel \<^verbatim>\<open>-1\<close> is \<^term>\<open>None\<close> here and every test \<^verbatim>\<open>!= -1\<close> is a test
  against \<^term>\<open>None\<close>.
\<close>

fun str_find :: "string \<Rightarrow> string \<Rightarrow> nat option" where
  "str_find sub [] = (if sub = [] then Some 0 else None)"
| "str_find sub (c # cs) =
     (if prefix sub (c # cs) then Some 0 else map_option Suc (str_find sub cs))"

text \<open>The operator \<^verbatim>\<open>sub in line\<close>.\<close>

definition str_in :: "string \<Rightarrow> string \<Rightarrow> bool" where
  "str_in sub s = (str_find sub s \<noteq> None)"

text \<open>
  Whitespace as \<^verbatim>\<open>str.isspace\<close>, \<^verbatim>\<open>str.strip\<close> and the regex class \<^verbatim>\<open>\s\<close> see it
  on the characters below 256: tab, line feed, vertical tab, form feed, carriage return,
  the separators 0x1C to 0x1F, space, 0x85 and 0xA0.
\<close>

definition is_space :: "char \<Rightarrow> bool" where
  "is_space c = (c \<in> set [CHR 0x09, CHR 0x0A, CHR 0x0B, CHR 0x0C, CHR 0x0D,
                           CHR 0x1C, CHR 0x1D, CHR 0x1E, CHR 0x1F, CHR 0x20,
                           CHR 0x85, CHR 0xA0])"

definition strip :: "string \<Rightarrow> string" where
  "strip s = rev (dropWhile is_space (rev (dropWhile is_space s)))"

text \<open>\<^verbatim>\<open>content.split('\n')\<close>: the pieces between line feeds, without them.\<close>

fun split_nl :: "string \<Rightarrow> string list" where
  "split_nl [] = [[]]"
| "split_nl (c # cs) =
     (if c = CHR 0x0A then [] # split_nl cs
      else (case split_nl cs of [] \<Rightarrow> [[c]] | l # ls \<Rightarrow> (c # l) # ls))"

text \<open>\<^verbatim>\<open>f.readlines()\<close>: the lines with their line feed; the last one may lack it.\<close>

fun readlines :: "string \<Rightarrow> string list" where
  "readlines [] = []"
| "readlines (c # cs) =
     (if c = CHR 0x0A then [c] # readlines cs
      else (case readlines cs of [] \<Rightarrow> [[c]] | l # ls \<Rightarrow> (c # l) # ls))"

text \<open>
  \<^verbatim>\<open>str.replace(old, new)\<close>: every non-overlapping occurrence, left to right. For an
  empty \<^verbatim>\<open>old\<close> Python puts \<^verbatim>\<open>new\<close> before every character and at the end.
\<close>

fun replace_scan :: "string \<Rightarrow> string \<Rightarrow> string \<Rightarrow> string" where
  "replace_scan old new [] = []"
| "replace_scan old new (c # cs) =
     (if prefix old (c # cs) then new @ replace_scan old new (drop (length old - 1) cs)
      else c # replace_scan old new cs)"

definition str_replace :: "string \<Rightarrow> string \<Rightarrow> string \<Rightarrow> string" where
  "str_replace old new s =
     (if old = [] then new @ concat (map (\<lambda>c. c # new) s) else replace_scan old new s)"

section \<open>The regular expressions of the scripts\<close>

text \<open>
  Every pattern of the scripts is a sequence of single characters and character classes,
  each taken once or under one of the quantifiers \<^verbatim>\<open>*\<close>, \<^verbatim>\<open>+\<close>, \<^verbatim>\<open>+?\<close>. The matcher
  below is the backtracking search of Python's \<^verbatim>\<open>re\<close> on such patterns: a greedy
  quantifier tries the longer repetition first, a lazy one the shorter, and the first
  success in that order is the match. \<^term>\<open>StarLazy\<close> is the tail of \<^verbatim>\<open>+?\<close> after
  its first character. The flag \<^verbatim>\<open>re.DOTALL\<close> changes the meaning of \<^verbatim>\<open>.\<close> only, and
  no pattern has an unescaped dot.
\<close>

datatype cls = Ch char | NotCh char | Space

datatype quant = One | Star | Plus | PlusLazy | StarLazy

type_synonym regex = "(cls \<times> quant) list"

fun cls_match :: "cls \<Rightarrow> char \<Rightarrow> bool" where
  "cls_match (Ch a) c = (c = a)"
| "cls_match (NotCh a) c = (c \<noteq> a)"
| "cls_match Space c = is_space c"

text \<open>The length of the match that starts at the head of the string, if there is one.\<close>

fun rx_match :: "regex \<Rightarrow> string \<Rightarrow> nat option" where
  "rx_match [] s = Some 0"
| "rx_match ((k, One) # r) [] = None"
| "rx_match ((k, One) # r) (c # cs) =
     (if cls_match k c then map_option Suc (rx_match r cs) else None)"
| "rx_match ((k, Star) # r) [] = rx_match r []"
| "rx_match ((k, Star) # r) (c # cs) =
     (if cls_match k c
      then (case rx_match ((k, Star) # r) cs of
              Some n \<Rightarrow> Some (Suc n)
            | None \<Rightarrow> rx_match r (c # cs))
      else rx_match r (c # cs))"
| "rx_match ((k, Plus) # r) [] = None"
| "rx_match ((k, Plus) # r) (c # cs) =
     (if cls_match k c then map_option Suc (rx_match ((k, Star) # r) cs) else None)"
| "rx_match ((k, PlusLazy) # r) [] = None"
| "rx_match ((k, PlusLazy) # r) (c # cs) =
     (if cls_match k c then map_option Suc (rx_match ((k, StarLazy) # r) cs) else None)"
| "rx_match ((k, StarLazy) # r) [] = rx_match r []"
| "rx_match ((k, StarLazy) # r) (c # cs) =
     (case rx_match r (c # cs) of
        Some n \<Rightarrow> Some n
      | None \<Rightarrow>
          (if cls_match k c then map_option Suc (rx_match ((k, StarLazy) # r) cs)
           else None))"

text \<open>
  \<^verbatim>\<open>re.sub(pattern, repl, s)\<close>: scan from the left; where the pattern matches, put
  \<^verbatim>\<open>repl\<close> and go on after the match, else keep the character. Every pattern of the
  scripts starts with a character it must read, so no match is empty; an empty match is
  treated here as no match.
\<close>

fun re_sub :: "regex \<Rightarrow> string \<Rightarrow> string \<Rightarrow> string" where
  "re_sub rx repl [] = []"
| "re_sub rx repl (c # cs) =
     (case rx_match rx (c # cs) of
        Some (Suc n) \<Rightarrow> repl @ re_sub rx repl (drop n cs)
      | _ \<Rightarrow> c # re_sub rx repl cs)"

definition lit :: "string \<Rightarrow> regex" where
  "lit s = map (\<lambda>c. (Ch c, One)) s"

section \<open>What a script run leaves behind\<close>

text \<open>
  \<^term>\<open>written\<close> is the text written to the target file (\<^term>\<open>None\<close>: the file is
  not opened for writing), \<^term>\<open>printed\<close> the messages in order, \<^term>\<open>exit_status\<close>
  the process status.
\<close>

record outcome =
  written :: "string option"
  printed :: "string list"
  exit_status :: nat

text \<open>
  The marker cut of \<^verbatim>\<open>clean_habit_modal.py\<close> and \<^verbatim>\<open>clean_tracker_grid.py\<close>:
  \<^verbatim>\<open>content[:start_idx] + content[end_idx:]\<close> when both \<^verbatim>\<open>find\<close> calls succeed, the
  content as it is otherwise. The two indices are never compared.
\<close>

definition marker_cut :: "string \<Rightarrow> string \<Rightarrow> string \<Rightarrow> string" where
  "marker_cut start_marker end_marker content =
     (case (str_find start_marker content, str_find end_marker content) of
        (Some start_idx, Some end_idx) \<Rightarrow> take start_idx content @ drop end_idx content
      | _ \<Rightarrow> content)"

definition markers_found :: "string \<Rightarrow> string \<Rightarrow> string \<Rightarrow> bool" where
  "markers_found start_marker end_marker content =
     (str_find start_marker content \<noteq> None \<and> str_find end_marker content \<noteq> None)"

section \<open>clean\_habit\_modal.py\<close>

definition rx_toggleAssignedDay :: regex where
  "rx_toggleAssignedDay =
     lit ''const toggleAssignedDay = (dayIndex: number) => {'' @ [(NotCh CHR ''}'', Plus)]
       @ lit ''};''"

definition rx_daysOfWeek :: regex where
  "rx_daysOfWeek = lit ''const daysOfWeek = ['S', 'M', 'T', 'W', 'T', 'F', 'S'];''"

definition rx_assignedDays_branch :: regex where
  "rx_assignedDays_branch =
     lit ''} else if (frequency === 'weekly' && goalType === 'boolean' && assignedDays.length > 0) {''
       @ [(NotCh CHR ''}'', Plus)] @ lit ''}''"

definition rx_blank_lines :: regex where
  "rx_blank_lines =
     [(Ch CHR 0x0A, One), (Space, Star), (Ch CHR 0x0A, One), (Space, Star), (Ch CHR 0x0A, One)]"

definition modal_start_marker :: string where
  "modal_start_marker =
     ''{/* 3. Specific Configuration based on Weekly/Type (Only if Regular or Weekly Bundle) */}''"

definition modal_end_marker :: string where
  "modal_end_marker = ''{/* 4. Configuration for Daily/Total (Legacy support mostly) */}''"

text \<open>The clean-up of line 48, \<^verbatim>\<open>re.sub(r'\n\s*\n\s*\n', '\n\n', content)\<close>.\<close>

definition normalize_blank_lines :: "string \<Rightarrow> string" where
  "normalize_blank_lines content = re_sub rx_blank_lines [CHR 0x0A, CHR 0x0A] content"

text \<open>Lines 12 to 29: three \<^verbatim>\<open>re.sub\<close> passes and two \<^verbatim>\<open>replace\<close> passes.\<close>

definition modal_passes :: "string \<Rightarrow> string" where
  "modal_passes content =
     (let content = re_sub rx_toggleAssignedDay [] content;
          content = re_sub rx_daysOfWeek [] content;
          content = re_sub rx_assignedDays_branch [] content;
          content = str_replace ''assignedDays: frequency === 'daily' ? assignedDays : undefined,''
                      ''assignedDays: undefined,'' content;
          content = str_replace ''assignedDays: frequency === 'weekly' ? assignedDays : undefined,''
                      ''assignedDays: undefined,'' content
      in content)"

text \<open>The whole script, from the text read at line 8 to the write of line 51.\<close>

definition clean_habit_modal :: "string \<Rightarrow> outcome" where
  "clean_habit_modal file =
     (let content = modal_passes file;
          found = markers_found modal_start_marker modal_end_marker content;
          content = marker_cut modal_start_marker modal_end_marker content;
          msgs = (if found then [] else [''Could not find Old Weekly Config Block markers'']);
          content = normalize_blank_lines content
      in \<lparr> written = Some content,
           printed = msgs @ [''Successfully cleaned AddHabitModal.tsx''],
           exit_status = 0 \<rparr>)"

section \<open>clean\_tracker\_grid.py\<close>

definition rx_WeeklyHabitRowContent :: regex where
  "rx_WeeklyHabitRowContent =
     lit ''const WeeklyHabitRowContent = ({'' @ [(NotCh CHR '';'', PlusLazy)]
       @ lit ''\<newline>};''"

definition rx_handleOpenChoiceLog :: regex where
  "rx_handleOpenChoiceLog =
     lit ''const handleOpenChoiceLog = '' @ [(NotCh CHR '';'', PlusLazy)]
       @ [(Ch CHR 0x0A, One), (Space, Star)] @ lit ''};''"

definition grid_start_marker :: string where
  "grid_start_marker = ''const WeeklyHabitRowContent = ({''"

definition grid_end_marker :: string where
  "grid_end_marker = ''// SortableWeeklyHabitRow removed/commented out''"

definition log_marker :: string where
  "log_marker = ''const handleOpenChoiceLog =''"

text \<open>
  The body of the loop of lines 63 to 89 on one line: the state is the flag \<^verbatim>\<open>skip\<close>
  and the list \<^verbatim>\<open>new_lines\<close>; the five \<^verbatim>\<open>if\<close> statements run in the order written.
\<close>

definition scan_step :: "bool \<times> string list \<Rightarrow> string \<Rightarrow> bool \<times> string list" where
  "scan_step st line =
     (let skip = fst st; new_lines = snd st;
          skip = (if str_in grid_start_marker line then True else skip);
          skip = (if str_in grid_end_marker line \<and> skip then False else skip);
          skip = (if str_in log_marker line then True else skip);
          new_lines = (if \<not> skip then new_lines @ [line] else new_lines);
          skip = (if skip \<and> strip line = ''};'' then False else skip)
      in (skip, new_lines))"

definition line_scan :: "string list \<Rightarrow> bool \<times> string list" where
  "line_scan lines = foldl scan_step (False, []) lines"

text \<open>
  The whole script. No statement before line 107 writes the file, so the second read, at
  line 99, returns the text of the first read: \<^verbatim>\<open>original_content\<close> is \<^term>\<open>file\<close>.
\<close>

definition clean_tracker_grid :: "string \<Rightarrow> outcome" where
  "clean_tracker_grid file =
     (let content = file;
          content = re_sub rx_WeeklyHabitRowContent [] content;
          content = re_sub rx_handleOpenChoiceLog [] content;
          found = markers_found grid_start_marker grid_end_marker content;
          content = marker_cut grid_start_marker grid_end_marker content;
          msgs1 = (if found then [] else [''Could not find WeeklyHabitRowContent markers'']);
          lines = split_nl content;
          scanned = line_scan lines;
          content = concat (map (\<lambda>l. l @ [CHR 0x0A]) lines);
          original_content = file;
          s_idx = str_find grid_start_marker original_content;
          e_idx = str_find grid_end_marker original_content
      in (case (s_idx, e_idx) of
            (Some s, Some e) \<Rightarrow>
              \<lparr> written = Some (take s original_content @ drop e original_content),
                printed = msgs1 @ [''Removed WeeklyHabitRowContent''],
                exit_status = 0 \<rparr>
          | _ \<Rightarrow>
              \<lparr> written = None,
                printed = msgs1 @ [''Markers not found for WeeklyHabitRowContent''],
                exit_status = 0 \<rparr>))"

section \<open>fix\_tracker\_grid.py\<close>

definition section_marker_spaced :: string where
  "section_marker_spaced = ''{/* Weekly Habits Section - Redesigned as Cards */ }''"

definition section_marker :: string where
  "section_marker = ''{/* Weekly Habits Section - Redesigned as Cards */}''"

definition fallback_text :: string where
  "fallback_text = ''weeklyHabits.length > 0''"

text \<open>The index of the first element that satisfies the test, as a loop with \<^verbatim>\<open>break\<close> finds it.\<close>

fun first_index :: "('a \<Rightarrow> bool) \<Rightarrow> 'a list \<Rightarrow> nat option" where
  "first_index P [] = None"
| "first_index P (x # xs) = (if P x then Some 0 else map_option Suc (first_index P xs))"

text \<open>The fallback loop of lines 22 to 25, from index \<open>i\<close> on: the line must lie after index 1200.\<close>

fun fallback_from :: "nat \<Rightarrow> string list \<Rightarrow> nat option" where
  "fallback_from i [] = None"
| "fallback_from i (line # rest) =
     (if str_in fallback_text line \<and> i > 1200 then Some (i - 1)
      else fallback_from (Suc i) rest)"

definition new_bottom :: string where
  \<open>new_bottom = concat [
    ''\<newline>'',
    ''                    {weeklyHabits.length > 0 && (\<newline>'',
    ''                        <div className="flex flex-col border-t border-white/5 mt-8 pt-8">\<newline>'',
    ''                             <div className="px-6 mb-6">\<newline>'',
    ''                                <h3 className="text-lg font-medium text-emerald-400 flex items-center gap-2">\<newline>'',
    ''                                    <span>Weekly Progress</span>\<newline>'',
    ''                                    <span className="text-xs text-neutral-500 font-normal px-2 py-0.5 rounded-full bg-neutral-800 border border-white/5">Resets Monday</span>\<newline>'',
    ''                                </h3>\<newline>'',
    ''                            </div>\<newline>'',
    ''                            \<newline>'',
    ''                            <div className="grid grid-cols-1 md:grid-cols-2 lg:grid-cols-3 gap-4 px-6">\<newline>'',
    ''                                {weeklyHabits.map(habit => (\<newline>'',
    ''                                    <WeeklyHabitCard\<newline>'',
    ''                                        key={habit.id}\<newline>'',
    ''                                        habit={habit}\<newline>'',
    ''                                        logs={logs}\<newline>'',
    ''                                        goals={progressData?.goalsWithProgress.map(g => g.goal)}\<newline>'',
    ''                                        potentialEvidence={potentialEvidence?.some(e => e.habitId === habit.id)}\<newline>'',
    ''                                        onToggle={(h) => handleToggle(h.id, format(new Date(), 'yyyy-MM-dd'))}\<newline>'',
    ''                                        onLogValue={(e, h, val) => {\<newline>'',
    ''                                            // Open popover for quantity inputs\<newline>'',
    ''                                            handleOpenPopover(e, h, format(new Date(), 'yyyy-MM-dd'), val);\<newline>'',
    ''                                        }}\<newline>'',
    ''                                        onEdit={(h) => onEditHabit(h)}\<newline>'',
    ''                                        onViewHistory={(h) => setHistoryModalHabitId(h.id)}\<newline>'',
    ''                                    />\<newline>'',
    ''                                ))}\<newline>'',
    ''                            </div>\<newline>'',
    ''                        </div>\<newline>'',
    ''                    )}\<newline>'',
    ''                </div>\<newline>'',
    ''            </DndContext>\<newline>'',
    ''\<newline>'',
    ''            {/* Modals */}\<newline>'',
    ''            <NumericInputPopover\<newline>'',
    ''                isOpen={popoverState.isOpen}\<newline>'',
    ''                onClose={() => setPopoverState(prev => ({ ...prev, isOpen: false }))}\<newline>'',
    ''                onSubmit={async (val) => {\<newline>'',
    ''                    try {\<newline>'',
    ''                        const { habitId, date } = popoverState;\<newline>'',
    ''                        // Use type assertion to access potential extra fields\<newline>'',
    ''                        const state = popoverState as any;\<newline>'',
    ''                        if (state.bundleOptionId) {\<newline>'',
    ''                            await upsertHabitEntry(habitId, date, {\<newline>'',
    ''                                value: val,\<newline>'',
    ''                                bundleOptionId: state.bundleOptionId\<newline>'',
    ''                            });\<newline>'',
    ''                        } else {\<newline>'',
    ''                            await upsertHabitEntry(habitId, date, { value: val });\<newline>'',
    ''                        }\<newline>'',
    ''                        refreshProgress();\<newline>'',
    ''                        setPopoverState(prev => ({ ...prev, isOpen: false }));\<newline>'',
    ''                    } catch (error) {\<newline>'',
    ''                        console.error('Failed to update log:', error);\<newline>'',
    ''                        setPopoverState(prev => ({ ...prev, isOpen: false }));\<newline>'',
    ''                    }\<newline>'',
    ''                }}\<newline>'',
    ''                initialValue={popoverState.initialValue}\<newline>'',
    ''                unit={popoverState.unit}\<newline>'',
    ''                position={popoverState.position}\<newline>'',
    ''            />\<newline>'',
    ''\<newline>'',
    ''            {historyModalHabitId && (\<newline>'',
    ''                <HabitHistoryModal\<newline>'',
    ''                    habitId={historyModalHabitId}\<newline>'',
    ''                    onClose={() => setHistoryModalHabitId(null)}\<newline>'',
    ''                />\<newline>'',
    ''            )}\<newline>'',
    ''\<newline>'',
    ''            {/* Habit Choice Log Modal */}\<newline>'',
    ''            {choiceLogState && (\<newline>'',
    ''                <HabitLogModal\<newline>'',
    ''                    isOpen={!!choiceLogState}\<newline>'',
    ''                    onClose={() => setChoiceLogState(null)}\<newline>'',
    ''                    habit={choiceLogState.habit}\<newline>'',
    ''                    date={choiceLogState.date}\<newline>'',
    ''                    existingEntry={logs[`${choiceLogState.habit.id}-${choiceLogState.date}`] ? {\<newline>'',
    ''                        bundleOptionId: logs[`${choiceLogState.habit.id}-${choiceLogState.date}`].bundleOptionId,\<newline>'',
    ''                        value: logs[`${choiceLogState.habit.id}-${choiceLogState.date}`].value\<newline>'',
    ''                    } : undefined}\<newline>'',
    ''                    onSave={handleChoiceSave}\<newline>'',
    ''                />\<newline>'',
    ''            )}\<newline>'',
    ''        </div>\<newline>'',
    ''    );\<newline>'',
    ''};\<newline>'',
    ''\<newline>'',
    ''export default TrackerGrid;\<newline>''
  ]\<close>

definition find_cutoff :: "string list \<Rightarrow> nat option" where
  "find_cutoff lines =
     first_index (\<lambda>line. str_in section_marker_spaced line \<or> str_in section_marker line) lines"

text \<open>
  The decimal digits of a number, as the f-string of line 128 prints
  \<^verbatim>\<open>len(final_content)\<close>.
\<close>

fun show_nat :: "nat \<Rightarrow> string" where
  "show_nat n =
     (if n < 10 then [''0123456789'' ! n]
      else show_nat (n div 10) @ [''0123456789'' ! (n mod 10)])"

declare show_nat.simps [simp del]

text \<open>
  The whole script. \<^verbatim>\<open>exit(1)\<close> ends the run before the write; on both other paths the
  file is written and the last line prints the length of what was written.
\<close>

definition fix_tracker_grid :: "string \<Rightarrow> outcome" where
  "fix_tracker_grid file =
     (let lines = readlines file in
      case find_cutoff lines of
        Some cutoff_index \<Rightarrow>
          (let final_content = concat (take (cutoff_index + 1) lines) @ new_bottom in
           \<lparr> written = Some final_content,
             printed = [''Successfully rewrote TrackerGrid.tsx, new length ''
                          @ show_nat (length final_content) @ '' bytes''],
             exit_status = 0 \<rparr>)
      | None \<Rightarrow>
          (case fallback_from 0 lines of
             Some cutoff_index \<Rightarrow>
               (let final_content = concat (take (cutoff_index + 1) lines) @ new_bottom in
                \<lparr> written = Some final_content,
                  printed = [''Could not find cutoff point'',
                             ''Successfully rewrote TrackerGrid.tsx, new length ''
                               @ show_nat (length final_content) @ '' bytes''],
                  exit_status = 0 \<rparr>)
           | None \<Rightarrow>
               \<lparr> written = None,
                 printed = [''Could not find cutoff point'', ''Really could not find cutoff''],
                 exit_status = 1 \<rparr>))"

section \<open>Notions of the specification\<close>

text \<open>
  The number of positions of the buffer at which the marker text occurs, as the
  specification counts the candidates of an exact-marker locator.
\<close>

fun occurrence_count :: "string \<Rightarrow> string \<Rightarrow> nat" where
  "occurrence_count sub [] = (if sub = [] then 1 else 0)"
| "occurrence_count sub (c # cs) =
     (if prefix sub (c # cs) then 1 else 0) + occurrence_count sub cs"

text \<open>
  The start and end conditions of the loop of \<^verbatim>\<open>clean_tracker_grid.py\<close>, each gathered
  into one predicate on a line: the loop starts to skip at either start text and stops
  at the end comment or at a line that is \<^verbatim>\<open>};\<close> once stripped.
\<close>

definition skip_start :: "string \<Rightarrow> bool" where
  "skip_start line = (str_in grid_start_marker line \<or> str_in log_marker line)"

definition skip_end :: "string \<Rightarrow> bool" where
  "skip_end line = (str_in grid_end_marker line \<or> strip line = ''};'')"


text \<open>
  What the clean-up makes of a maximal run of whitespace: a run with three or more line
  feeds keeps what stands before its first line feed and after its last one, with
  exactly two line feeds in between; any other run stays.
\<close>

definition collapse_run :: "string \<Rightarrow> string" where
  "collapse_run w =
     (if 3 \<le> count_list w CHR 0x0A
      then takeWhile (\<lambda>c. c \<noteq> CHR 0x0A) w @ [CHR 0x0A, CHR 0x0A]
             @ rev (takeWhile (\<lambda>c. c \<noteq> CHR 0x0A) (rev w))
      else w)"

text \<open>
  Whether a pattern of the scripts matches somewhere in the text, as
  \<^verbatim>\<open>re.search(pattern, s) is not None\<close> tells for a pattern that matches no empty string.
\<close>

fun rx_found :: "regex \<Rightarrow> string \<Rightarrow> bool" where
  "rx_found rx [] = False"
| "rx_found rx (c # cs) =
     (case rx_match rx (c # cs) of Some (Suc n) \<Rightarrow> True | _ \<Rightarrow> rx_found rx cs)"

text \<open>
  No locator of \<^verbatim>\<open>clean_habit_modal.py\<close> finds anything in the text: none of its four
  patterns matches, neither text of the two \<^verbatim>\<open>replace\<close> calls occurs, and the marker
  pair is not found.
\<close>

definition no_locator_matches :: "string \<Rightarrow> bool" where
  "no_locator_matches content =
     (\<not> rx_found rx_toggleAssignedDay content
      \<and> \<not> rx_found rx_daysOfWeek content
      \<and> \<not> rx_found rx_assignedDays_branch content
      \<and> str_find ''assignedDays: frequency === 'daily' ? assignedDays : undefined,'' content = None
      \<and> str_find ''assignedDays: frequency === 'weekly' ? assignedDays : undefined,'' content = None
      \<and> \<not> markers_found modal_start_marker modal_end_marker content
      \<and> \<not> rx_found rx_blank_lines content)"

text \<open>
  What one line does to the flag of that loop, whatever the flag was before. A line
  opens a skip when it holds the \<^verbatim>\<open>handleOpenChoiceLog\<close> text, or the
  \<^verbatim>\<open>WeeklyHabitRowContent\<close> start text without the end comment. A line closes a skip
  when it holds the end comment without the \<^verbatim>\<open>handleOpenChoiceLog\<close> text, or is
  \<^verbatim>\<open>};\<close> once stripped.
\<close>

definition opens_skip :: "string \<Rightarrow> bool" where
  "opens_skip line =
     (str_in log_marker line
      \<or> (str_in grid_start_marker line \<and> \<not> str_in grid_end_marker line))"

definition closes_skip :: "string \<Rightarrow> bool" where
  "closes_skip line =
     ((str_in grid_end_marker line \<and> \<not> str_in log_marker line) \<or> strip line = ''};'')"

section \<open>Facts about the search and the cut\<close>

lemma str_find_SomeD:
  "str_find sub s = Some i \<Longrightarrow>
     i \<le> length s \<and> prefix sub (drop i s) \<and> (\<forall>j<i. \<not> prefix sub (drop j s))"
proof (induction s arbitrary: i)
  case Nil
  then show ?case by (simp split: if_splits)
next
  case (Cons c cs)
  show ?case
  proof (cases "prefix sub (c # cs)")
    case True
    with Cons.prems show ?thesis by simp
  next
    case False
    with Cons.prems obtain k where k: "str_find sub cs = Some k" "i = Suc k" by auto
    from Cons.IH [OF k(1)] have ih: "k \<le> length cs" "prefix sub (drop k cs)"
      "\<forall>j<k. \<not> prefix sub (drop j cs)" by auto
    have "\<not> prefix sub (drop j (c # cs))" if "j < i" for j
    proof (cases j)
      case 0
      with False show ?thesis by simp
    next
      case (Suc j')
      with that k(2) ih(3) show ?thesis by simp
    qed
    with ih k(2) show ?thesis by simp
  qed
qed

lemma str_find_None_iff:
  "str_find sub s = None \<longleftrightarrow> (\<forall>j\<le>length s. \<not> prefix sub (drop j s))"
proof (induction s)
  case Nil
  show ?case by simp
next
  case (Cons c cs)
  show ?case
  proof (cases "prefix sub (c # cs)")
    case True
    then have "\<exists>j\<le>length (c # cs). prefix sub (drop j (c # cs))" by (intro exI [of _ 0]) simp
    with True show ?thesis by auto
  next
    case False
    have "(\<forall>j\<le>length (c # cs). \<not> prefix sub (drop j (c # cs))) \<longleftrightarrow>
          (\<forall>j\<le>length cs. \<not> prefix sub (drop j cs))" (is "?L \<longleftrightarrow> ?R")
    proof
      assume l: ?L
      show ?R
      proof (intro allI impI)
        fix j assume "j \<le> length cs"
        with l have "\<not> prefix sub (drop (Suc j) (c # cs))" by (metis Suc_le_mono length_Cons)
        then show "\<not> prefix sub (drop j cs)" by simp
      qed
    next
      assume r: ?R
      show ?L
      proof (intro allI impI)
        fix j assume j: "j \<le> length (c # cs)"
        show "\<not> prefix sub (drop j (c # cs))"
        proof (cases j)
          case 0 with False show ?thesis by simp
        next
          case (Suc j') with j r show ?thesis by simp
        qed
      qed
    qed
    with False Cons.IH show ?thesis by simp
  qed
qed

lemma marker_cut_found:
  "str_find sm c = Some s \<Longrightarrow> str_find em c = Some e \<Longrightarrow>
     marker_cut sm em c = take s c @ drop e c"
  by (simp add: marker_cut_def)

lemma marker_cut_not_found:
  "str_find sm c = None \<or> str_find em c = None \<Longrightarrow> marker_cut sm em c = c"
  by (auto simp add: marker_cut_def split: option.splits)

lemma occurrence_found: "0 < occurrence_count sub s \<Longrightarrow> str_find sub s \<noteq> None"
  by (induction s) (auto split: if_splits)

lemma concat_readlines: "concat (readlines s) = s"
  by (induction s) (auto split: list.splits)

lemma take_length_concat_take:
  "take (length (concat (take k xs))) (concat xs) = concat (take k xs)"
proof -
  have "concat xs = concat (take k xs) @ concat (drop k xs)"
    by (metis append_take_drop_id concat_append)
  then show ?thesis by (metis append_eq_conv_conj)
qed

lemma clean_tracker_grid_written:
  "written (clean_tracker_grid file) =
     (case (str_find grid_start_marker file, str_find grid_end_marker file) of
        (Some s, Some e) \<Rightarrow> Some (take s file @ drop e file)
      | _ \<Rightarrow> None)"
  by (simp add: clean_tracker_grid_def Let_def split: option.splits)

lemma scan_step_eq:
  "scan_step (skip, acc) line =
     (let skip3 = (str_in log_marker line
                   \<or> ((str_in grid_start_marker line \<or> skip) \<and> \<not> str_in grid_end_marker line))
      in (skip3 \<and> strip line \<noteq> ''};'', if skip3 then acc else acc @ [line]))"
  by (auto simp add: scan_step_def Let_def)

lemma set_strip: "set l \<subseteq> set (strip l) \<union> {c. is_space c}"
proof
  fix x assume x: "x \<in> set l"
  let ?d = "dropWhile is_space l"
  have "l = takeWhile is_space l @ ?d" by simp
  then have "x \<in> set (takeWhile is_space l) \<or> x \<in> set ?d"
    using x by (metis Un_iff set_append)
  moreover have "is_space x" if "x \<in> set (takeWhile is_space l)"
    using that by (rule set_takeWhileD [THEN conjunct2])
  moreover have "x \<in> set (strip l) \<or> is_space x" if xd: "x \<in> set ?d"
  proof -
    have "rev ?d = takeWhile is_space (rev ?d) @ dropWhile is_space (rev ?d)" by simp
    then have "set ?d = set (takeWhile is_space (rev ?d)) \<union> set (dropWhile is_space (rev ?d))"
      by (metis set_append set_rev)
    with xd have "x \<in> set (takeWhile is_space (rev ?d)) \<or> x \<in> set (dropWhile is_space (rev ?d))"
      by blast
    then show ?thesis
    proof
      assume "x \<in> set (takeWhile is_space (rev ?d))"
      then show ?thesis using set_takeWhileD by fast
    next
      assume "x \<in> set (dropWhile is_space (rev ?d))"
      then show ?thesis by (simp add: strip_def)
    qed
  qed
  ultimately show "x \<in> set (strip l) \<union> {c. is_space c}" by blast
qed

lemma str_in_set: "str_in sub l \<Longrightarrow> set sub \<subseteq> set l"
proof -
  assume "str_in sub l"
  then obtain i where "str_find sub l = Some i" by (auto simp add: str_in_def)
  from str_find_SomeD [OF this] have "prefix sub (drop i l)" by simp
  then have "set sub \<subseteq> set (drop i l)" by (rule set_mono_prefix)
  also have "\<dots> \<subseteq> set l" by (rule set_drop_subset)
  finally show ?thesis .
qed

lemma closing_line_has_no_marker:
  assumes "strip l = ''};''"
  shows "\<not> str_in grid_start_marker l" and "\<not> str_in grid_end_marker l"
    and "\<not> str_in log_marker l"
proof -
  from set_strip [of l] assms have sub: "set l \<subseteq> {CHR ''}'', CHR '';''} \<union> {c. is_space c}"
    by auto
  have c: "CHR ''c'' \<notin> {CHR ''}'', CHR '';''} \<union> {c. is_space c}"
    by (simp add: is_space_def)
  have s: "CHR ''/'' \<notin> {CHR ''}'', CHR '';''} \<union> {c. is_space c}"
    by (simp add: is_space_def)
  have "CHR ''c'' \<in> set grid_start_marker" by (simp add: grid_start_marker_def)
  with c sub str_in_set [of grid_start_marker l] show "\<not> str_in grid_start_marker l" by blast
  have "CHR ''/'' \<in> set grid_end_marker" by (simp add: grid_end_marker_def)
  with s sub str_in_set [of grid_end_marker l] show "\<not> str_in grid_end_marker l" by blast
  have "CHR ''c'' \<in> set log_marker" by (simp add: log_marker_def)
  with c sub str_in_set [of log_marker l] show "\<not> str_in log_marker l" by blast
qed

lemma first_index_SomeD:
  "first_index P xs = Some i \<Longrightarrow> i < length xs \<and> P (xs ! i) \<and> (\<forall>j<i. \<not> P (xs ! j))"
proof (induction xs arbitrary: i)
  case Nil
  then show ?case by simp
next
  case (Cons x xs)
  show ?case
  proof (cases "P x")
    case True
    with Cons.prems show ?thesis by simp
  next
    case False
    with Cons.prems obtain k where k: "first_index P xs = Some k" "i = Suc k" by auto
    from Cons.IH [OF k(1)] have ih: "k < length xs" "P (xs ! k)" "\<forall>j<k. \<not> P (xs ! j)"
      by auto
    have "\<not> P ((x # xs) ! j)" if "j < i" for j
      using that False ih(3) k(2) by (cases j) auto
    with ih k(2) show ?thesis by simp
  qed
qed

lemma is_space_nl: "is_space CHR 0x0A"
  by (simp add: is_space_def)

lemma not_space_not_nl: "\<not> is_space x \<Longrightarrow> x \<noteq> CHR 0x0A"
  using is_space_nl by auto

lemma tail2_no_nl:
  assumes "\<forall>c\<in>set w. is_space c" and "CHR 0x0A \<notin> set w" and "b = [] \<or> \<not> is_space (hd b)"
  shows "rx_match [(Space, Star), (Ch CHR 0x0A, One)] (w @ b) = None"
  using assms
proof (induction w)
  case Nil
  then show ?case by (cases b) (auto dest: not_space_not_nl)
next
  case (Cons c w)
  then show ?case by auto
qed

lemma tail2_last_nl:
  assumes "\<forall>c\<in>set u. is_space c" and "\<forall>c\<in>set v. is_space c" and "CHR 0x0A \<notin> set v"
    and "b = [] \<or> \<not> is_space (hd b)"
  shows "rx_match [(Space, Star), (Ch CHR 0x0A, One)] (u @ CHR 0x0A # v @ b)
           = Some (Suc (length u))"
  using assms
proof (induction u)
  case Nil
  with tail2_no_nl [of v b] show ?case by (simp add: is_space_nl)
next
  case (Cons c u)
  then show ?case by simp
qed

lemma tail4_few_nl:
  assumes "\<forall>c\<in>set w. is_space c" and "count_list w CHR 0x0A < 2"
    and "b = [] \<or> \<not> is_space (hd b)"
  shows "rx_match [(Space, Star), (Ch CHR 0x0A, One), (Space, Star), (Ch CHR 0x0A, One)] (w @ b)
           = None"
  using assms
proof (induction w)
  case Nil
  then show ?case by (cases b) (auto dest: not_space_not_nl)
next
  case (Cons c w)
  show ?case
  proof (cases "c = CHR 0x0A")
    case True
    with Cons.prems have "count_list w CHR 0x0A = 0" by simp
    then have "CHR 0x0A \<notin> set w" by (simp add: count_list_0_iff)
    with Cons tail2_no_nl [of w b] True show ?thesis by (simp add: is_space_nl)
  next
    case False
    with Cons show ?thesis by simp
  qed
qed

lemma tail4_last_nl:
  assumes "\<forall>c\<in>set w. is_space c" and "\<forall>c\<in>set v. is_space c" and "CHR 0x0A \<notin> set v"
    and "b = [] \<or> \<not> is_space (hd b)"
  shows "rx_match [(Space, Star), (Ch CHR 0x0A, One), (Space, Star), (Ch CHR 0x0A, One)]
           (w @ CHR 0x0A # v @ b)
           = (if CHR 0x0A \<in> set w then Some (Suc (length w)) else None)"
  using assms
proof (induction w)
  case Nil
  have "count_list v CHR 0x0A < 2" using Nil.prems(3) by (simp add: count_list_0_iff)
  with Nil tail4_few_nl [of v b] tail2_no_nl [of v b] show ?case by (simp add: is_space_nl)
next
  case (Cons c w)
  then have ih: "rx_match [(Space, Star), (Ch CHR 0x0A, One), (Space, Star), (Ch CHR 0x0A, One)]
           (w @ CHR 0x0A # v @ b)
           = (if CHR 0x0A \<in> set w then Some (Suc (length w)) else None)"
    and sp: "is_space c" and ws: "\<forall>c\<in>set w. is_space c" by auto
  show ?case
  proof (cases "CHR 0x0A \<in> set w")
    case True
    with ih sp show ?thesis by simp
  next
    case False
    note t2 = tail2_last_nl [OF ws Cons.prems(2) Cons.prems(3) Cons.prems(4)]
    show ?thesis
    proof (cases "c = CHR 0x0A")
      case True
      have "rx_match [(Space, Star), (Ch CHR 0x0A, One), (Space, Star), (Ch CHR 0x0A, One)]
           (CHR 0x0A # w @ CHR 0x0A # v @ b) = Some (Suc (Suc (length w)))"
        using ih False t2 by (simp add: is_space_nl)
      with True show ?thesis by simp
    next
      case c: False
      with ih sp False show ?thesis by simp
    qed
  qed
qed

lemma blank_match_one_nl:
  assumes "\<forall>c\<in>set v. is_space c" and "CHR 0x0A \<notin> set v" and "b = [] \<or> \<not> is_space (hd b)"
  shows "rx_match rx_blank_lines (CHR 0x0A # v @ b) = None"
proof -
  have "count_list v CHR 0x0A < 2" using assms(2) by (simp add: count_list_0_iff)
  with assms tail4_few_nl [of v b] show ?thesis by (simp add: rx_blank_lines_def)
qed

lemma blank_match_more_nl:
  assumes "\<forall>c\<in>set w. is_space c" and "\<forall>c\<in>set v. is_space c" and "CHR 0x0A \<notin> set v"
    and "b = [] \<or> \<not> is_space (hd b)"
  shows "rx_match rx_blank_lines (CHR 0x0A # w @ CHR 0x0A # v @ b)
           = (if CHR 0x0A \<in> set w then Some (Suc (Suc (length w))) else None)"
  using tail4_last_nl [OF assms] by (simp add: rx_blank_lines_def)

lemma blank_match_not_nl: "c \<noteq> CHR 0x0A \<Longrightarrow> rx_match rx_blank_lines (c # s) = None"
  by (simp add: rx_blank_lines_def)

lemma normalize_Cons_not_nl:
  "c \<noteq> CHR 0x0A \<Longrightarrow> normalize_blank_lines (c # s) = c # normalize_blank_lines s"
  by (simp add: normalize_blank_lines_def blank_match_not_nl)

lemma normalize_no_nl:
  "CHR 0x0A \<notin> set v \<Longrightarrow> normalize_blank_lines (v @ s) = v @ normalize_blank_lines s"
  by (induction v) (auto simp add: normalize_Cons_not_nl)


lemma collapse_run_Cons_not_nl:
  assumes "c \<noteq> CHR 0x0A"
  shows "collapse_run (c # w) = c # collapse_run w"
proof (cases "3 \<le> count_list w CHR 0x0A")
  case True
  then have "count_list w CHR 0x0A \<noteq> 0" by simp
  then have "CHR 0x0A \<in> set (rev w)" by (simp add: count_list_0_iff)
  then have "takeWhile (\<lambda>c. c \<noteq> CHR 0x0A) (rev w @ [c]) = takeWhile (\<lambda>c. c \<noteq> CHR 0x0A) (rev w)"
    by (intro takeWhile_append1) auto
  with True assms show ?thesis by (simp add: collapse_run_def)
next
  case False
  with assms show ?thesis by (simp add: collapse_run_def)
qed

lemma collapse_run_few: "count_list w CHR 0x0A < 3 \<Longrightarrow> collapse_run w = w"
  by (simp add: collapse_run_def)

lemma collapse_run_many:
  assumes "CHR 0x0A \<in> set u" and "CHR 0x0A \<notin> set v"
  shows "collapse_run (CHR 0x0A # u @ CHR 0x0A # v) = CHR 0x0A # CHR 0x0A # v"
proof -
  from assms(1) have "count_list u CHR 0x0A \<noteq> 0" by (simp add: count_list_0_iff)
  then have cnt: "3 \<le> count_list (CHR 0x0A # u @ CHR 0x0A # v) CHR 0x0A" by simp
  have "takeWhile (\<lambda>c. c \<noteq> CHR 0x0A) (rev v @ CHR 0x0A # rev u @ [CHR 0x0A])
      = rev v @ takeWhile (\<lambda>c. c \<noteq> CHR 0x0A) (CHR 0x0A # rev u @ [CHR 0x0A])"
    using assms(2) by (intro takeWhile_append2) auto
  then have "rev (takeWhile (\<lambda>c. c \<noteq> CHR 0x0A) (rev (CHR 0x0A # u @ CHR 0x0A # v))) = v"
    by simp
  with cnt show ?thesis unfolding collapse_run_def by simp
qed

lemma normalize_Cons_match:
  "rx_match rx_blank_lines (c # cs) = Some (Suc n) \<Longrightarrow>
     normalize_blank_lines (c # cs) = CHR 0x0A # CHR 0x0A # normalize_blank_lines (drop n cs)"
  by (simp add: normalize_blank_lines_def)

lemma normalize_Cons_no_match:
  "rx_match rx_blank_lines (c # cs) = None \<Longrightarrow>
     normalize_blank_lines (c # cs) = c # normalize_blank_lines cs"
  by (simp add: normalize_blank_lines_def)

lemma normalize_run:
  assumes "\<forall>c\<in>set w. is_space c" and "b = [] \<or> \<not> is_space (hd b)"
  shows "normalize_blank_lines (w @ b) = collapse_run w @ normalize_blank_lines b"
  using assms(1)
proof (induction w)
  case Nil
  show ?case by (simp add: collapse_run_def)
next
  case (Cons c w)
  then have ws: "\<forall>c\<in>set w. is_space c"
    and ih: "normalize_blank_lines (w @ b) = collapse_run w @ normalize_blank_lines b" by auto
  show ?case
  proof (cases "c = CHR 0x0A")
    case False
    with ih show ?thesis by (simp add: normalize_Cons_not_nl collapse_run_Cons_not_nl)
  next
    case True
    show ?thesis
    proof (cases "CHR 0x0A \<in> set w")
      case False
      then have c0: "count_list w CHR 0x0A = 0" by (simp add: count_list_0_iff)
      have "rx_match rx_blank_lines (CHR 0x0A # w @ b) = None"
        by (rule blank_match_one_nl [OF ws False assms(2)])
      then have "normalize_blank_lines (CHR 0x0A # w @ b) = CHR 0x0A # normalize_blank_lines (w @ b)"
        by (rule normalize_Cons_no_match)
      with ih c0 True show ?thesis by (simp add: collapse_run_few)
    next
      case in_w: True
      then obtain u v where w: "w = u @ CHR 0x0A # v" and v: "CHR 0x0A \<notin> set v"
        using split_list_last by fastforce
      from ws w have wsu: "\<forall>c\<in>set u. is_space c" and wsv: "\<forall>c\<in>set v. is_space c" by auto
      have cv: "count_list v CHR 0x0A = 0" using v by (simp add: count_list_0_iff)
      note m = blank_match_more_nl [OF wsu wsv v assms(2)]
      show ?thesis
      proof (cases "CHR 0x0A \<in> set u")
        case False
        then have cu: "count_list u CHR 0x0A = 0" by (simp add: count_list_0_iff)
        from m False have "rx_match rx_blank_lines (CHR 0x0A # w @ b) = None" by (simp add: w)
        then have "normalize_blank_lines (CHR 0x0A # w @ b)
            = CHR 0x0A # normalize_blank_lines (w @ b)"
          by (rule normalize_Cons_no_match)
        moreover have "collapse_run w = w" "collapse_run (CHR 0x0A # w) = CHR 0x0A # w"
          using cu cv by (simp_all add: collapse_run_few w)
        ultimately show ?thesis using ih True by simp
      next
        case in_u: True
        with m have "rx_match rx_blank_lines (CHR 0x0A # w @ b) = Some (Suc (Suc (length u)))"
          by (simp add: w)
        then have "normalize_blank_lines (CHR 0x0A # w @ b)
            = CHR 0x0A # CHR 0x0A # normalize_blank_lines (drop (Suc (length u)) (w @ b))"
          by (rule normalize_Cons_match)
        also have "drop (Suc (length u)) (w @ b) = v @ b" by (simp add: w)
        also have "normalize_blank_lines (v @ b) = v @ normalize_blank_lines b"
          by (rule normalize_no_nl [OF v])
        finally show ?thesis using collapse_run_many [OF in_u v] True by (simp add: w)
      qed
    qed
  qed
qed

lemma normalize_Nil: "normalize_blank_lines [] = []"
  by (simp add: normalize_blank_lines_def)

lemma normalize_append:
  assumes "a = [] \<or> \<not> is_space (last a)"
  shows "normalize_blank_lines (a @ s) = normalize_blank_lines a @ normalize_blank_lines s"
  using assms
proof (induction a rule: length_induct)
  case (1 a)
  show ?case
  proof (cases a)
    case Nil
    then show ?thesis by (simp add: normalize_Nil)
  next
    case (Cons c a')
    with "1.prems" have last: "\<not> is_space (last a)" by simp
    show ?thesis
    proof (cases "is_space c")
      case False
      then have cn: "c \<noteq> CHR 0x0A" by (rule not_space_not_nl)
      have a': "a' = [] \<or> \<not> is_space (last a')" using last Cons by auto
      have "length a' < length a" using Cons by simp
      with "1.IH" a' have "normalize_blank_lines (a' @ s)
          = normalize_blank_lines a' @ normalize_blank_lines s" by blast
      with cn Cons show ?thesis by (simp add: normalize_Cons_not_nl)
    next
      case True
      have "dropWhile is_space a \<noteq> []"
      proof
        assume "dropWhile is_space a = []"
        then have "\<forall>x\<in>set a. is_space x" by (simp add: dropWhile_eq_Nil_conv)
        moreover have "last a \<in> set a" using Cons by simp
        ultimately show False using last by blast
      qed
      then obtain x t where R: "dropWhile is_space a = x # t"
        by (cases "dropWhile is_space a") auto
      then have x: "\<not> is_space x"
        using hd_dropWhile [of is_space a] by (metis list.sel(1) list.distinct(1))
      obtain W where W: "W = takeWhile is_space a" by simp
      have a: "a = W @ x # t" using R W by (metis takeWhile_dropWhile_id)
      have wsW: "\<forall>c\<in>set W. is_space c" using W by (auto dest: set_takeWhileD)
      have xn: "x \<noteq> CHR 0x0A" using x by (rule not_space_not_nl)
      have lt: "length t < length a" by (simp add: a)
      have t: "t = [] \<or> \<not> is_space (last t)"
      proof (cases "t = []")
        case False
        then have "last a = last t" by (simp add: a)
        with last show ?thesis by simp
      qed simp
      from "1.IH" lt t have iht: "normalize_blank_lines (t @ s)
          = normalize_blank_lines t @ normalize_blank_lines s" by blast
      have "normalize_blank_lines (a @ s) = normalize_blank_lines (W @ (x # t @ s))"
        by (simp add: a)
      also have "\<dots> = collapse_run W @ normalize_blank_lines (x # t @ s)"
        using x by (intro normalize_run [OF wsW]) simp
      also have "\<dots> = collapse_run W @ x # normalize_blank_lines t @ normalize_blank_lines s"
        using xn iht by (simp add: normalize_Cons_not_nl)
      finally have l: "normalize_blank_lines (a @ s)
          = collapse_run W @ x # normalize_blank_lines t @ normalize_blank_lines s" .
      have "normalize_blank_lines a = normalize_blank_lines (W @ (x # t))"
        by (simp add: a)
      also have "\<dots> = collapse_run W @ normalize_blank_lines (x # t)"
        using x by (intro normalize_run [OF wsW]) simp
      also have "\<dots> = collapse_run W @ x # normalize_blank_lines t"
        using xn by (simp add: normalize_Cons_not_nl)
      finally show ?thesis using l by simp
    qed
  qed
qed

lemma re_sub_no_match: "\<not> rx_found rx s \<Longrightarrow> re_sub rx repl s = s"
  by (induction s) (auto split: option.splits nat.splits)

lemma replace_scan_absent: "str_find old s = None \<Longrightarrow> replace_scan old new s = s"
  by (induction s) (auto split: if_splits)

lemma str_replace_absent: "str_find old s = None \<Longrightarrow> str_replace old new s = s"
proof -
  assume a: "str_find old s = None"
  then have "old \<noteq> []" by (cases s) auto
  with a show ?thesis by (simp add: str_replace_def replace_scan_absent)
qed

lemma modal_passes_no_match:
  assumes "no_locator_matches content"
  shows "modal_passes content = content"
  using assms
  by (simp add: no_locator_matches_def modal_passes_def Let_def re_sub_no_match
      str_replace_absent)

lemma readlines_no_empty_line: "[] \<notin> set (readlines s)"
  by (induction s) (auto split: list.splits)

lemma readlines_after_complete_lines:
  "i < length (readlines s) \<Longrightarrow> last (readlines s ! i) = CHR 0x0A \<Longrightarrow>
     readlines (concat (take (Suc i) (readlines s)) @ t) = take (Suc i) (readlines s) @ readlines t"
proof (induction s arbitrary: i)
  case Nil
  then show ?case by simp
next
  case (Cons c cs)
  show ?case
  proof (cases "c = CHR 0x0A")
    case True
    show ?thesis
    proof (cases i)
      case 0
      with True show ?thesis by simp
    next
      case (Suc i')
      with Cons.prems True have "i' < length (readlines cs)"
        "last (readlines cs ! i') = CHR 0x0A" by auto
      from Cons.IH [OF this] True Suc show ?thesis by simp
    qed
  next
    case False
    show ?thesis
    proof (cases "readlines cs")
      case Nil
      with False Cons.prems show ?thesis by simp
    next
      case (Cons l ls)
      have l: "l \<noteq> []" using readlines_no_empty_line [of cs] Cons by auto
      show ?thesis
      proof (cases i)
        case 0
        with Cons.prems(2) False Cons l have "last (readlines cs ! 0) = CHR 0x0A" by simp
        moreover have "0 < length (readlines cs)" using Cons by simp
        ultimately have "readlines (concat (take (Suc 0) (readlines cs)) @ t)
            = take (Suc 0) (readlines cs) @ readlines t"
          by (rule Cons.IH [rotated])
        with Cons have "readlines (l @ t) = l # readlines t" by simp
        with False Cons 0 show ?thesis by simp
      next
        case (Suc i')
        with Cons.prems False Cons have "i < length (readlines cs)"
          "last (readlines cs ! i) = CHR 0x0A" by auto
        from Cons.IH [OF this] Cons Suc
        have "readlines (l @ concat (take (Suc i') ls) @ t) = l # take (Suc i') ls @ readlines t"
          by simp
        with False Cons Suc show ?thesis by simp
      qed
    qed
  qed
qed

lemma first_index_SomeI:
  "i < length xs \<Longrightarrow> P (xs ! i) \<Longrightarrow> \<forall>j<i. \<not> P (xs ! j) \<Longrightarrow> first_index P xs = Some i"
proof (induction xs arbitrary: i)
  case Nil
  then show ?case by simp
next
  case (Cons x xs)
  show ?case
  proof (cases i)
    case 0
    with Cons.prems show ?thesis by simp
  next
    case (Suc i')
    with Cons.prems have "\<not> P x" by auto
    moreover have "first_index P xs = Some i'"
    proof (rule Cons.IH)
      show "i' < length xs" using Cons.prems Suc by simp
      show "P (xs ! i')" using Cons.prems Suc by simp
      show "\<forall>j<i'. \<not> P (xs ! j)" using Cons.prems(3) Suc by auto
    qed
    ultimately show ?thesis using Suc by simp
  qed
qed

lemma fix_tracker_grid_second_run:
  assumes "find_cutoff (readlines file) = Some i"
    and "last (readlines file ! i) = CHR 0x0A"
  shows "written (fix_tracker_grid file)
           = Some (concat (take (Suc i) (readlines file)) @ new_bottom)"
    and "find_cutoff (readlines (concat (take (Suc i) (readlines file)) @ new_bottom)) = Some i"
    and "written (fix_tracker_grid (concat (take (Suc i) (readlines file)) @ new_bottom))
           = Some (concat (take (Suc i) (readlines file)) @ new_bottom)"
proof -
  let ?lines = "readlines file"
  let ?P = "\<lambda>line. str_in section_marker_spaced line \<or> str_in section_marker line"
  let ?out = "concat (take (Suc i) ?lines) @ new_bottom"
  from assms(1) have fi: "first_index ?P ?lines = Some i" by (simp add: find_cutoff_def)
  from first_index_SomeD [OF fi]
  have i: "i < length ?lines" and hit: "?P (?lines ! i)" and first: "\<forall>j<i. \<not> ?P (?lines ! j)"
    by blast+
  show w: "written (fix_tracker_grid file) = Some ?out"
    using assms(1) by (simp add: fix_tracker_grid_def Let_def)
  have rl: "readlines ?out = take (Suc i) ?lines @ readlines new_bottom"
    by (rule readlines_after_complete_lines [OF i assms(2)])
  have "first_index ?P (readlines ?out) = Some i"
  proof (rule first_index_SomeI)
    show "i < length (readlines ?out)" using i by (simp add: rl)
    show "?P (readlines ?out ! i)" using i hit by (simp add: rl nth_append)
    show "\<forall>j<i. \<not> ?P (readlines ?out ! j)" using i first by (simp add: rl nth_append)
  qed
  then show c: "find_cutoff (readlines ?out) = Some i" by (simp add: find_cutoff_def)
  have "take (Suc i) (readlines ?out) = take (Suc i) ?lines" using i by (simp add: rl)
  with c show "written (fix_tracker_grid ?out) = Some ?out"
    by (simp add: fix_tracker_grid_def Let_def)
qed

lemma scan_step_opens:
  assumes "opens_skip l"
  shows "scan_step (skip, acc) l = (True, acc)"
proof -
  have "strip l \<noteq> ''};''"
    using assms closing_line_has_no_marker [of l] by (auto simp add: opens_skip_def)
  with assms show ?thesis by (auto simp add: scan_step_eq opens_skip_def Let_def)
qed

lemma scan_skipping_not_closed:
  "\<forall>l\<in>set ls. \<not> closes_skip l \<Longrightarrow> foldl scan_step (True, acc) ls = (True, acc)"
  by (induction ls) (auto simp add: scan_step_eq closes_skip_def Let_def)

lemma scan_copying_no_start:
  "\<forall>l\<in>set ls. \<not> skip_start l \<Longrightarrow> foldl scan_step (False, acc) ls = (False, acc @ ls)"
  by (induction ls arbitrary: acc) (auto simp add: scan_step_eq skip_start_def Let_def)

lemma line_scan_unterminated:
  assumes "opens_skip l" and "\<forall>l'\<in>set post. \<not> closes_skip l'"
  shows "line_scan (pre @ l # post) = (True, snd (line_scan pre))"
proof -
  obtain sk acc where pre: "foldl scan_step (False, []) pre = (sk, acc)" by (cases "foldl scan_step (False, []) pre") auto
  have "line_scan (pre @ l # post) = foldl scan_step (scan_step (sk, acc) l) post"
    by (simp add: line_scan_def pre)
  also have "\<dots> = foldl scan_step (True, acc) post"
    by (simp add: scan_step_opens [OF assms(1)])
  also have "\<dots> = (True, acc)" by (rule scan_skipping_not_closed [OF assms(2)])
  finally show ?thesis by (simp add: line_scan_def pre)
qed

lemma opens_skip_start: "skip_start l \<Longrightarrow> \<not> skip_end l \<Longrightarrow> opens_skip l"
  by (auto simp add: opens_skip_def skip_start_def skip_end_def)

lemma closes_skip_end: "closes_skip l \<Longrightarrow> skip_end l"
  by (auto simp add: closes_skip_def skip_end_def)

lemma fix_tracker_grid_written_cut:
  assumes "written (fix_tracker_grid file) = Some out"
  shows "\<exists>k. (find_cutoff (readlines file) = Some k
            \<or> (find_cutoff (readlines file) = None \<and> fallback_from 0 (readlines file) = Some k))
           \<and> out = concat (take (Suc k) (readlines file)) @ new_bottom"
  using assms by (auto simp add: fix_tracker_grid_def Let_def split: option.splits)

lemma readlines_all_but_last:
  "Suc j < length (readlines s) \<Longrightarrow> last (readlines s ! j) = CHR 0x0A"
proof (induction s arbitrary: j)
  case Nil
  then show ?case by simp
next
  case (Cons c cs)
  show ?case
  proof (cases "c = CHR 0x0A")
    case True
    with Cons show ?thesis by (cases j) auto
  next
    case False
    show ?thesis
    proof (cases "readlines cs")
      case Nil
      with False Cons.prems show ?thesis by simp
    next
      case (Cons l ls)
      have l: "l \<noteq> []" using readlines_no_empty_line [of cs] Cons by auto
      from Cons.prems False Cons have "Suc j < length (readlines cs)" by simp
      from Cons.IH [OF this] have "last (readlines cs ! j) = CHR 0x0A" .
      with False Cons l show ?thesis by (cases j) auto
    qed
  qed
qed

lemma readlines_append_keeps:
  "i < length (readlines s) \<Longrightarrow>
     i < length (readlines (s @ t))
     \<and> take i (readlines (s @ t)) = take i (readlines s)
     \<and> (\<exists>l'. readlines (s @ t) ! i = readlines s ! i @ l')"
proof (induction s arbitrary: i)
  case Nil
  then show ?case by simp
next
  case (Cons c cs)
  show ?case
  proof (cases "c = CHR 0x0A")
    case True
    show ?thesis
    proof (cases i)
      case 0
      with True show ?thesis by simp
    next
      case (Suc i')
      with Cons.prems True have "i' < length (readlines cs)" by simp
      from Cons.IH [OF this] True Suc show ?thesis by simp
    qed
  next
    case False
    show ?thesis
    proof (cases "readlines cs")
      case Nil
      then have cs: "cs = []" by (cases cs) (auto split: if_splits list.splits)
      with False Cons.prems have i: "i = 0" by simp
      show ?thesis using False cs i by (cases "readlines t") auto
    next
      case (Cons l ls)
      from Cons.prems False Cons have il: "i < length (readlines cs)" by simp
      have "0 < length (readlines cs)" using Cons by simp
      from Cons.IH [OF this, of ] obtain l2 ls2 where r2: "readlines (cs @ t) = l2 # ls2"
        by (cases "readlines (cs @ t)") auto
      from Cons.IH [OF il] have ih: "i < length (readlines (cs @ t))"
        "take i (readlines (cs @ t)) = take i (readlines cs)"
        "\<exists>l'. readlines (cs @ t) ! i = readlines cs ! i @ l'" by auto
      show ?thesis
      proof (cases i)
        case 0
        with ih(3) Cons r2 False show ?thesis by auto
      next
        case (Suc i')
        with ih Cons r2 False show ?thesis by auto
      qed
    qed
  qed
qed

lemma str_in_append: "str_in sub l \<Longrightarrow> str_in sub (l @ l')"
proof -
  assume "str_in sub l"
  then obtain j where "j \<le> length l" "prefix sub (drop j l)"
    using str_find_None_iff [of sub l] by (auto simp add: str_in_def)
  then have "j \<le> length (l @ l')" "prefix sub (drop j (l @ l'))"
    by (auto intro: prefix_prefix)
  then show ?thesis using str_find_None_iff [of sub "l @ l'"] unfolding str_in_def by blast
qed

lemma fix_tracker_grid_finds_again:
  assumes "find_cutoff (readlines file) = Some i"
  shows "find_cutoff (readlines (concat (take (Suc i) (readlines file)) @ new_bottom)) = Some i"
proof (cases "last (readlines file ! i) = CHR 0x0A")
  case True
  from fix_tracker_grid_second_run(2) [OF assms True] show ?thesis .
next
  case False
  let ?lines = "readlines file"
  let ?P = "\<lambda>line. str_in section_marker_spaced line \<or> str_in section_marker line"
  from assms have fi: "first_index ?P ?lines = Some i" by (simp add: find_cutoff_def)
  from first_index_SomeD [OF fi]
  have i: "i < length ?lines" and hit: "?P (?lines ! i)" and first: "\<forall>j<i. \<not> ?P (?lines ! j)"
    by blast+
  from False readlines_all_but_last [of i "file"] i have "Suc i = length ?lines" by fastforce
  then have top: "concat (take (Suc i) ?lines) = file" by (simp add: concat_readlines)
  from readlines_append_keeps [OF i, of new_bottom]
  obtain l' where k: "i < length (readlines (file @ new_bottom))"
    "take i (readlines (file @ new_bottom)) = take i ?lines"
    "readlines (file @ new_bottom) ! i = ?lines ! i @ l'" by blast
  have "first_index ?P (readlines (file @ new_bottom)) = Some i"
  proof (rule first_index_SomeI)
    show "i < length (readlines (file @ new_bottom))" by (rule k(1))
    show "?P (readlines (file @ new_bottom) ! i)" using hit k(3) str_in_append by auto
    show "\<forall>j<i. \<not> ?P (readlines (file @ new_bottom) ! j)"
    proof (intro allI impI)
      fix j assume j: "j < i"
      then have "readlines (file @ new_bottom) ! j = take i (readlines (file @ new_bottom)) ! j"
        by simp
      also have "\<dots> = ?lines ! j" using j by (simp add: k(2))
      finally show "\<not> ?P (readlines (file @ new_bottom) ! j)" using first j by simp
    qed
  qed
  then show ?thesis by (simp add: find_cutoff_def top)
qed

section \<open>The claims\<close>

text \<open>
  C1 (as stated): when the marker text occurs more than once the locator answers
  Ambiguous and the buffer stays as it is. The script takes the first occurrence instead:
  on a file with the start marker twice, \<^verbatim>\<open>clean_habit_modal.py\<close> cuts from the first
  one and writes the shortened text.
\<close>

theorem C1_counterexample:
  "occurrence_count modal_start_marker
     (modal_start_marker @ ''a'' @ modal_start_marker @ ''b'' @ modal_end_marker) = 2
   \<and> written (clean_habit_modal
        (modal_start_marker @ ''a'' @ modal_start_marker @ ''b'' @ modal_end_marker))
       = Some modal_end_marker
   \<and> modal_end_marker \<noteq> modal_start_marker @ ''a'' @ modal_start_marker @ ''b'' @ modal_end_marker"
  by code_simp

text \<open>
  C1 (amended): a marker that occurs more than once is located at its first occurrence,
  the least offset at which the marker text starts, and with the end marker found the cut
  is applied from there: the result is the text before that offset followed by the text
  from the end marker's offset on.
\<close>

theorem C1_first_occurrence_is_used:
  assumes "1 < occurrence_count start_marker content"
    and "str_find end_marker content = Some e"
  shows "\<exists>s. str_find start_marker content = Some s
           \<and> prefix start_marker (drop s content)
           \<and> (\<forall>j<s. \<not> prefix start_marker (drop j content))
           \<and> marker_cut start_marker end_marker content = take s content @ drop e content"
proof -
  from assms(1) have "str_find start_marker content \<noteq> None"
    using occurrence_found [of start_marker content] by simp
  then obtain s where s: "str_find start_marker content = Some s" by blast
  from str_find_SomeD [OF s] marker_cut_found [OF s assms(2)] s show ?thesis by blast
qed

theorem C1_first_occurrence_is_used_witness:
  "1 < occurrence_count ''X'' ''aXbXcEd'' \<and> str_find ''E'' ''aXbXcEd'' = Some 5
   \<and> (\<exists>s. str_find ''X'' ''aXbXcEd'' = Some s
           \<and> prefix ''X'' (drop s ''aXbXcEd'')
           \<and> (\<forall>j<s. \<not> prefix ''X'' (drop j ''aXbXcEd''))
           \<and> marker_cut ''X'' ''E'' ''aXbXcEd'' = take s ''aXbXcEd'' @ drop 5 ''aXbXcEd'')
   \<and> marker_cut ''X'' ''E'' ''aXbXcEd'' = ''aEd''"
proof -
  have h1: "1 < occurrence_count ''X'' ''aXbXcEd''" by simp
  have h2: "str_find ''E'' ''aXbXcEd'' = Some 5" by simp
  have h3: "marker_cut ''X'' ''E'' ''aXbXcEd'' = ''aEd''" by (simp add: marker_cut_def)
  from C1_first_occurrence_is_used [OF h1 h2] h1 h2 h3 show ?thesis by blast
qed

text \<open>
  C5 (as stated): on the buffer of Example 1 the cut between the markers
  \<^verbatim>\<open>START\<close> and \<^verbatim>\<open>END\<close> keeps both marker texts. The cut of the scripts starts at
  the start marker's own offset, so the start marker goes with the body.
\<close>

theorem C5_counterexample:
  "marker_cut ''START\<newline>'' ''END\<newline>'' ''A\<newline>START\<newline>foo\<newline>bar\<newline>END\<newline>B\<newline>''
     \<noteq> ''A\<newline>START\<newline>END\<newline>B\<newline>''"
  by (simp add: marker_cut_def)

text \<open>
  C5 (amended): on that buffer the result is \<^verbatim>\<open>A\nEND\nB\n\<close>: the start marker and the
  body are removed and the end marker is retained.
\<close>

theorem C5_start_marker_removed:
  "marker_cut ''START\<newline>'' ''END\<newline>'' ''A\<newline>START\<newline>foo\<newline>bar\<newline>END\<newline>B\<newline>''
     = ''A\<newline>END\<newline>B\<newline>''"
  by (simp add: marker_cut_def)

text \<open>
  C4: a cut applied at a found span, start offset not after end offset, leaves the text
  before the start offset and the text from the end offset on as they were; and the
  replacement of the tail in \<^verbatim>\<open>fix_tracker_grid.py\<close> leaves the text before its cut
  point as it was: with \<open>k\<close> the cutoff line the search has found, the written text
  starts with the lines of the file up to line \<open>k\<close>, unchanged, and goes on with the
  new text and nothing else.
\<close>

theorem C4_outside_of_span_unchanged:
  "(str_find start_marker content = Some s \<longrightarrow> str_find end_marker content = Some e \<longrightarrow> s \<le> e \<longrightarrow>
      e \<le> length content
      \<and> take s (marker_cut start_marker end_marker content) = take s content
      \<and> drop s (marker_cut start_marker end_marker content) = drop e content)
   \<and> (written (fix_tracker_grid file) = Some out \<longrightarrow>
      (\<exists>k. (find_cutoff (readlines file) = Some k
             \<or> (find_cutoff (readlines file) = None \<and> fallback_from 0 (readlines file) = Some k))
          \<and> length (concat (take (Suc k) (readlines file))) \<le> length file
          \<and> take (length (concat (take (Suc k) (readlines file)))) file
              = concat (take (Suc k) (readlines file))
          \<and> take (length (concat (take (Suc k) (readlines file)))) out
              = take (length (concat (take (Suc k) (readlines file)))) file
          \<and> drop (length (concat (take (Suc k) (readlines file)))) out = new_bottom))"
proof -
  have cut_part: "e \<le> length content
      \<and> take s (marker_cut start_marker end_marker content) = take s content
      \<and> drop s (marker_cut start_marker end_marker content) = drop e content"
    if s: "str_find start_marker content = Some s"
      and e: "str_find end_marker content = Some e" and le: "s \<le> e"
  proof -
    from str_find_SomeD [OF e] have el: "e \<le> length content" by simp
    with le have sl: "s \<le> length content" by simp
    have cut: "marker_cut start_marker end_marker content = take s content @ drop e content"
      by (rule marker_cut_found [OF s e])
    from sl el show ?thesis by (simp add: cut)
  qed
  have tail_part: "\<exists>k. (find_cutoff (readlines file) = Some k
             \<or> (find_cutoff (readlines file) = None \<and> fallback_from 0 (readlines file) = Some k))
          \<and> length (concat (take (Suc k) (readlines file))) \<le> length file
          \<and> take (length (concat (take (Suc k) (readlines file)))) file
              = concat (take (Suc k) (readlines file))
          \<and> take (length (concat (take (Suc k) (readlines file)))) out
              = take (length (concat (take (Suc k) (readlines file)))) file
          \<and> drop (length (concat (take (Suc k) (readlines file)))) out = new_bottom"
    if w: "written (fix_tracker_grid file) = Some out"
  proof -
    from fix_tracker_grid_written_cut [OF w] obtain k
      where k: "find_cutoff (readlines file) = Some k
             \<or> (find_cutoff (readlines file) = None \<and> fallback_from 0 (readlines file) = Some k)"
        and out: "out = concat (take (Suc k) (readlines file)) @ new_bottom" by blast
    let ?top = "concat (take (Suc k) (readlines file))"
    have top: "take (length ?top) file = ?top"
      using take_length_concat_take [of "Suc k" "readlines file"] by (simp add: concat_readlines)
    then have len: "length ?top \<le> length file"
      by (metis length_take min.cobounded2 min.commute)
    have "take (length ?top) out = take (length ?top) file \<and> drop (length ?top) out = new_bottom"
      using top by (simp add: out)
    with k len top show ?thesis by blast
  qed
  from cut_part tail_part show ?thesis by blast
qed

theorem C4_outside_of_span_unchanged_witness:
  "str_find ''S'' ''aSbcEd'' = Some 1 \<and> str_find ''E'' ''aSbcEd'' = Some 4 \<and> (1::nat) \<le> 4
   \<and> take 1 (marker_cut ''S'' ''E'' ''aSbcEd'') = take 1 ''aSbcEd''
   \<and> drop 1 (marker_cut ''S'' ''E'' ''aSbcEd'') = drop 4 ''aSbcEd''
   \<and> written (fix_tracker_grid (''a\<newline>'' @ section_marker @ ''\<newline>b\<newline>''))
       = Some (''a\<newline>'' @ section_marker @ ''\<newline>'' @ new_bottom)
   \<and> find_cutoff (readlines (''a\<newline>'' @ section_marker @ ''\<newline>b\<newline>'')) = Some 1
   \<and> concat (take (Suc 1) (readlines (''a\<newline>'' @ section_marker @ ''\<newline>b\<newline>'')))
       = ''a\<newline>'' @ section_marker @ ''\<newline>''
   \<and> (\<exists>k. (find_cutoff (readlines (''a\<newline>'' @ section_marker @ ''\<newline>b\<newline>'')) = Some k
             \<or> (find_cutoff (readlines (''a\<newline>'' @ section_marker @ ''\<newline>b\<newline>'')) = None
                \<and> fallback_from 0 (readlines (''a\<newline>'' @ section_marker @ ''\<newline>b\<newline>'')) = Some k))
          \<and> take (length (concat (take (Suc k) (readlines (''a\<newline>'' @ section_marker @ ''\<newline>b\<newline>'')))))
                (''a\<newline>'' @ section_marker @ ''\<newline>b\<newline>'')
              = concat (take (Suc k) (readlines (''a\<newline>'' @ section_marker @ ''\<newline>b\<newline>'')))
          \<and> take (length (concat (take (Suc k) (readlines (''a\<newline>'' @ section_marker @ ''\<newline>b\<newline>'')))))
                (''a\<newline>'' @ section_marker @ ''\<newline>'' @ new_bottom)
              = take (length (concat (take (Suc k) (readlines (''a\<newline>'' @ section_marker @ ''\<newline>b\<newline>'')))))
                  (''a\<newline>'' @ section_marker @ ''\<newline>b\<newline>'')
          \<and> drop (length (concat (take (Suc k) (readlines (''a\<newline>'' @ section_marker @ ''\<newline>b\<newline>'')))))
                (''a\<newline>'' @ section_marker @ ''\<newline>'' @ new_bottom) = new_bottom)"
proof -
  have h1: "str_find ''S'' ''aSbcEd'' = Some 1" by simp
  have h2: "str_find ''E'' ''aSbcEd'' = Some 4" by simp
  have h3: "(1::nat) \<le> 4" by simp
  have h4: "written (fix_tracker_grid (''a\<newline>'' @ section_marker @ ''\<newline>b\<newline>''))
       = Some (''a\<newline>'' @ section_marker @ ''\<newline>'' @ new_bottom)"
    by (simp add: fix_tracker_grid_def Let_def find_cutoff_def str_in_def section_marker_def
        section_marker_spaced_def)
  have h5: "find_cutoff (readlines (''a\<newline>'' @ section_marker @ ''\<newline>b\<newline>'')) = Some 1"
    by (simp add: find_cutoff_def str_in_def section_marker_def section_marker_spaced_def)
  have h6: "concat (take (Suc 1) (readlines (''a\<newline>'' @ section_marker @ ''\<newline>b\<newline>'')))
       = ''a\<newline>'' @ section_marker @ ''\<newline>''"
    by (simp add: section_marker_def)
  from C4_outside_of_span_unchanged [of "''S''" "''aSbcEd''" 1 "''E''" 4
      "''a\<newline>'' @ section_marker @ ''\<newline>b\<newline>''"
      "''a\<newline>'' @ section_marker @ ''\<newline>'' @ new_bottom"] h1 h2 h3 h4 h5 h6
  show ?thesis by blast
qed

text \<open>
  C2 (as stated): nothing is written unless every region was located. On a file without
  the two markers \<^verbatim>\<open>clean_habit_modal.py\<close> prints that it could not find them and
  writes the file all the same.
\<close>

theorem C2_counterexample:
  "\<not> markers_found modal_start_marker modal_end_marker (modal_passes ''abc'')
   \<and> written (clean_habit_modal ''abc'') = Some ''abc''
   \<and> printed (clean_habit_modal ''abc'')
       = [''Could not find Old Weekly Config Block markers'',
          ''Successfully cleaned AddHabitModal.tsx'']"
  by code_simp

text \<open>
  C2 (amended): \<^verbatim>\<open>clean_tracker_grid.py\<close> writes the file exactly when both of its
  markers are found, and \<^verbatim>\<open>fix_tracker_grid.py\<close> writes nothing and exits with status 1
  when neither the section marker nor the fallback line is found.
  \<^verbatim>\<open>clean_habit_modal.py\<close> always writes: when its marker pair is not found the cut is
  skipped, the failure is printed, and the buffer left by the other passes is written
  after the blank-line clean-up.
\<close>

theorem C2_when_the_file_is_written:
  "(written (clean_tracker_grid file) \<noteq> None
      \<longleftrightarrow> markers_found grid_start_marker grid_end_marker file)
   \<and> (find_cutoff (readlines file) = None \<and> fallback_from 0 (readlines file) = None
      \<longrightarrow> written (fix_tracker_grid file) = None \<and> exit_status (fix_tracker_grid file) = 1)
   \<and> (\<not> markers_found modal_start_marker modal_end_marker (modal_passes file)
      \<longrightarrow> written (clean_habit_modal file) = Some (normalize_blank_lines (modal_passes file))
        \<and> printed (clean_habit_modal file)
            = [''Could not find Old Weekly Config Block markers'',
               ''Successfully cleaned AddHabitModal.tsx''])"
proof -
  have grid: "written (clean_tracker_grid file) \<noteq> None
      \<longleftrightarrow> markers_found grid_start_marker grid_end_marker file"
    by (auto simp add: clean_tracker_grid_written markers_found_def split: option.splits)
  have tail: "written (fix_tracker_grid file) = None \<and> exit_status (fix_tracker_grid file) = 1"
    if "find_cutoff (readlines file) = None" "fallback_from 0 (readlines file) = None"
    using that by (simp add: fix_tracker_grid_def Let_def)
  have modal: "written (clean_habit_modal file) = Some (normalize_blank_lines (modal_passes file))
        \<and> printed (clean_habit_modal file)
            = [''Could not find Old Weekly Config Block markers'',
               ''Successfully cleaned AddHabitModal.tsx'']"
    if nf: "\<not> markers_found modal_start_marker modal_end_marker (modal_passes file)"
  proof -
    from nf have "marker_cut modal_start_marker modal_end_marker (modal_passes file)
        = modal_passes file"
      by (intro marker_cut_not_found) (auto simp add: markers_found_def)
    with nf show ?thesis by (simp add: clean_habit_modal_def Let_def)
  qed
  from grid tail modal show ?thesis by blast
qed

theorem C2_when_the_file_is_written_witness:
  "\<not> markers_found grid_start_marker grid_end_marker ''abc''
   \<and> written (clean_tracker_grid ''abc'') = None
   \<and> find_cutoff (readlines ''abc'') = None \<and> fallback_from 0 (readlines ''abc'') = None
   \<and> written (fix_tracker_grid ''abc'') = None \<and> exit_status (fix_tracker_grid ''abc'') = 1
   \<and> \<not> markers_found modal_start_marker modal_end_marker (modal_passes ''abc'')
   \<and> written (clean_habit_modal ''abc'') = Some (normalize_blank_lines (modal_passes ''abc''))"
proof -
  have h1: "\<not> markers_found grid_start_marker grid_end_marker ''abc''" by code_simp
  have h2: "find_cutoff (readlines ''abc'') = None \<and> fallback_from 0 (readlines ''abc'') = None"
    by code_simp
  have h3: "\<not> markers_found modal_start_marker modal_end_marker (modal_passes ''abc'')"
    by code_simp
  from C2_when_the_file_is_written [of "''abc''"] h1 h2 h3 show ?thesis by blast
qed

text \<open>
  C10: the net effect of \<^verbatim>\<open>clean_tracker_grid.py\<close> is one contiguous cut of the
  original text. On a file where the end comment comes before the start text the script
  writes the comment followed by the whole original text: nothing is cut and the file
  grows.
\<close>

theorem C10_end_marker_before_start_marker:
  "str_find grid_start_marker (grid_end_marker @ ''\<newline>'' @ grid_start_marker) = Some 48
   \<and> str_find grid_end_marker (grid_end_marker @ ''\<newline>'' @ grid_start_marker) = Some 0
   \<and> written (clean_tracker_grid (grid_end_marker @ ''\<newline>'' @ grid_start_marker))
       = Some (grid_end_marker @ ''\<newline>'' @ grid_end_marker @ ''\<newline>'' @ grid_start_marker)"
  by code_simp

text \<open>
  C6 (as stated): a skip that is never closed is reported as an error and no truncated
  buffer is produced. The loop of \<^verbatim>\<open>clean_tracker_grid.py\<close> has no check at the end of
  the input: on three lines of which the first opens a skip it ends with the flag still
  set and with no line copied, and the run prints only its two marker messages and
  ends with status 0.
\<close>

theorem C6_counterexample:
  "line_scan [''const handleOpenChoiceLog = () => {'', ''x'', ''y''] = (True, [])
   \<and> printed (clean_tracker_grid ''const handleOpenChoiceLog = () => {\<newline>x\<newline>y'')
       = [''Could not find WeeklyHabitRowContent markers'',
          ''Markers not found for WeeklyHabitRowContent'']
   \<and> exit_status (clean_tracker_grid ''const handleOpenChoiceLog = () => {\<newline>x\<newline>y'') = 0"
  by code_simp

text \<open>
  C6 (amended): when a line opens a skip and no later line closes one, the loop ends in
  the skipping state without any error, and the lines it has copied are exactly the
  lines it had copied before the opening line: the opening line and the rest of the
  input are dropped from the copy. When no line before the opening line holds a start
  text, the copy is exactly the lines before the opening line. A line with a start text
  and no closing condition opens a skip, and a line with no closing condition closes
  none.
\<close>

theorem C6_unterminated_skip_is_silent:
  assumes "opens_skip l" and "\<forall>l'\<in>set post. \<not> closes_skip l'"
  shows "line_scan (pre @ l # post) = (True, snd (line_scan pre))
    \<and> ((\<forall>l'\<in>set pre. \<not> skip_start l') \<longrightarrow> line_scan (pre @ l # post) = (True, pre))
    \<and> (skip_start l \<and> \<not> skip_end l \<longrightarrow> opens_skip l)
    \<and> (\<forall>l'. \<not> skip_end l' \<longrightarrow> \<not> closes_skip l')"
proof -
  have a: "line_scan (pre @ l # post) = (True, snd (line_scan pre))"
    by (rule line_scan_unterminated [OF assms])
  have b: "line_scan (pre @ l # post) = (True, pre)" if "\<forall>l'\<in>set pre. \<not> skip_start l'"
    using a scan_copying_no_start [OF that, of "[]"] by (simp add: line_scan_def)
  from a b opens_skip_start closes_skip_end show ?thesis by blast
qed

theorem C6_unterminated_skip_is_silent_witness:
  "opens_skip ''const handleOpenChoiceLog = x'' \<and> \<not> closes_skip ''y''
   \<and> \<not> skip_start ''};''
   \<and> line_scan [''};'', ''const handleOpenChoiceLog = x'', ''y''] = (True, [''};''])"
proof -
  have o: "opens_skip ''const handleOpenChoiceLog = x''" by code_simp
  have c: "\<not> closes_skip ''y''" by code_simp
  have s: "\<not> skip_start ''};''" by code_simp
  have h2: "\<forall>l'\<in>set [''y'']. \<not> closes_skip l'" using c by simp
  have h3: "\<forall>l'\<in>set [''};'']. \<not> skip_start l'" using s by simp
  from C6_unterminated_skip_is_silent [OF o h2, of "[''};'']"] h3
  have "line_scan ([''};''] @ ''const handleOpenChoiceLog = x'' # [''y'']) = (True, [''};''])"
    by blast
  with o c s show ?thesis by simp
qed




text \<open>
  C9 (as stated): the result is the prefix of the buffer strictly before the start offset
  of the located marker, followed by the new text. \<^verbatim>\<open>fix_tracker_grid.py\<close> keeps the
  whole line that holds the marker: with the marker at offset 2 the written text is not
  the first two characters followed by the new text.
\<close>

theorem C9_counterexample:
  "str_find section_marker (''a\<newline>'' @ section_marker @ ''\<newline>b\<newline>'') = Some 2
   \<and> written (fix_tracker_grid (''a\<newline>'' @ section_marker @ ''\<newline>b\<newline>''))
       = Some (''a\<newline>'' @ section_marker @ ''\<newline>'' @ new_bottom)
   \<and> written (fix_tracker_grid (''a\<newline>'' @ section_marker @ ''\<newline>b\<newline>''))
       \<noteq> Some (take 2 (''a\<newline>'' @ section_marker @ ''\<newline>b\<newline>'') @ new_bottom)"
proof -
  have f: "str_find section_marker (''a\<newline>'' @ section_marker @ ''\<newline>b\<newline>'') = Some 2"
    by (simp add: section_marker_def)
  have w: "written (fix_tracker_grid (''a\<newline>'' @ section_marker @ ''\<newline>b\<newline>''))
       = Some (''a\<newline>'' @ section_marker @ ''\<newline>'' @ new_bottom)"
    by (simp add: fix_tracker_grid_def Let_def find_cutoff_def str_in_def section_marker_def
        section_marker_spaced_def)
  have "length (''a\<newline>'' @ section_marker @ ''\<newline>'' @ new_bottom)
      \<noteq> length (take 2 (''a\<newline>'' @ section_marker @ ''\<newline>b\<newline>'') @ new_bottom)"
    by simp
  then have "''a\<newline>'' @ section_marker @ ''\<newline>'' @ new_bottom
      \<noteq> take 2 (''a\<newline>'' @ section_marker @ ''\<newline>b\<newline>'') @ new_bottom"
    by metis
  with f w show ?thesis by simp
qed

text \<open>
  C9 (amended): when the loop of \<^verbatim>\<open>fix_tracker_grid.py\<close> finds the section marker, in
  line \<open>i\<close>, the first line that contains it, the written text is the prefix of the
  buffer up to the end of that line, the marker line included, followed by the new text:
  everything after the marker line is removed.
\<close>

theorem C9_tail_replaced_after_marker_line:
  assumes "find_cutoff (readlines file) = Some i"
  shows "i < length (readlines file)
    \<and> (str_in section_marker_spaced (readlines file ! i)
         \<or> str_in section_marker (readlines file ! i))
    \<and> (\<forall>j<i. \<not> (str_in section_marker_spaced (readlines file ! j)
                  \<or> str_in section_marker (readlines file ! j)))
    \<and> written (fix_tracker_grid file)
        = Some (take (length (concat (take i (readlines file))) + length (readlines file ! i)) file
                @ new_bottom)"
proof -
  let ?lines = "readlines file"
  from assms first_index_SomeD [of _ ?lines i]
  have i: "i < length ?lines"
    and hit: "str_in section_marker_spaced (?lines ! i) \<or> str_in section_marker (?lines ! i)"
    and first: "\<forall>j<i. \<not> (str_in section_marker_spaced (?lines ! j)
                  \<or> str_in section_marker (?lines ! j))"
    unfolding find_cutoff_def by blast+
  have w: "written (fix_tracker_grid file) = Some (concat (take (Suc i) ?lines) @ new_bottom)"
    using assms by (simp add: fix_tracker_grid_def Let_def)
  have len: "length (concat (take (Suc i) ?lines))
      = length (concat (take i ?lines)) + length (?lines ! i)"
    using i by (simp add: take_Suc_conv_app_nth)
  have "take (length (concat (take (Suc i) ?lines))) file = concat (take (Suc i) ?lines)"
    using take_length_concat_take [of "Suc i" ?lines] by (simp add: concat_readlines)
  with w len have "written (fix_tracker_grid file)
        = Some (take (length (concat (take i ?lines)) + length (?lines ! i)) file @ new_bottom)"
    by simp
  with i hit first show ?thesis by blast
qed

theorem C9_tail_replaced_after_marker_line_witness:
  "find_cutoff (readlines (''a\<newline>'' @ section_marker @ ''\<newline>b\<newline>'')) = Some 1
   \<and> written (fix_tracker_grid (''a\<newline>'' @ section_marker @ ''\<newline>b\<newline>''))
       = Some (take (length (concat (take 1 (readlines (''a\<newline>'' @ section_marker @ ''\<newline>b\<newline>''))))
                     + length (readlines (''a\<newline>'' @ section_marker @ ''\<newline>b\<newline>'') ! 1))
                 (''a\<newline>'' @ section_marker @ ''\<newline>b\<newline>'') @ new_bottom)"
proof -
  have h: "find_cutoff (readlines (''a\<newline>'' @ section_marker @ ''\<newline>b\<newline>'')) = Some 1"
    by (simp add: find_cutoff_def str_in_def section_marker_def section_marker_spaced_def)
  from C9_tail_replaced_after_marker_line [OF h] h show ?thesis by blast
qed

text \<open>
  C8 (as stated): runs of fewer than three blank lines are left unchanged. The pattern of
  the clean-up needs three line feeds, that is two blank lines: a run of two blank lines
  is collapsed to one.
\<close>

theorem C8_counterexample:
  "normalize_blank_lines ''a\<newline>\<newline>\<newline>b\<newline>'' = ''a\<newline>\<newline>b\<newline>''
   \<and> normalize_blank_lines ''a\<newline>\<newline>\<newline>b\<newline>'' \<noteq> ''a\<newline>\<newline>\<newline>b\<newline>''"
  by (simp add: normalize_blank_lines_def rx_blank_lines_def is_space_def)

text \<open>
  C8 (amended): the clean-up works on the whole buffer, run by run. A maximal run of
  whitespace with three or more line feeds in it (two or more consecutive blank or
  whitespace-only lines) is collapsed: what the run has before its first line feed and
  after its last line feed is kept, and everything between becomes exactly two line
  feeds, one blank line. A run with fewer than three line feeds (at most one blank line)
  is unchanged. The text before the run and the text after it are cleaned in the same
  way, independently. The pass runs once, as the last step of
  \<^verbatim>\<open>clean_habit_modal.py\<close>, on the buffer the other passes leave.
\<close>

theorem C8_blank_line_runs_collapse:
  assumes "\<forall>c\<in>set w. is_space c"
    and "a = [] \<or> \<not> is_space (last a)"
    and "b = [] \<or> \<not> is_space (hd b)"
  shows "normalize_blank_lines (a @ w @ b)
           = normalize_blank_lines a @ collapse_run w @ normalize_blank_lines b
    \<and> written (clean_habit_modal file)
        = Some (normalize_blank_lines
                  (marker_cut modal_start_marker modal_end_marker (modal_passes file)))"
proof -
  have "normalize_blank_lines (a @ w @ b)
      = normalize_blank_lines a @ normalize_blank_lines (w @ b)"
    by (rule normalize_append [OF assms(2)])
  also have "normalize_blank_lines (w @ b) = collapse_run w @ normalize_blank_lines b"
    by (rule normalize_run [OF assms(1) assms(3)])
  finally show ?thesis by (simp add: clean_habit_modal_def Let_def)
qed

theorem C8_blank_line_runs_collapse_witness:
  "is_space CHR 0x0A \<and> \<not> is_space (last ''a'') \<and> \<not> is_space (hd ''b\<newline>'')
   \<and> collapse_run ''\<newline>\<newline>\<newline>\<newline>'' = ''\<newline>\<newline>''
   \<and> normalize_blank_lines ''a\<newline>\<newline>\<newline>\<newline>b\<newline>'' = ''a\<newline>\<newline>b\<newline>''"
proof -
  have h1: "\<forall>c\<in>set ''\<newline>\<newline>\<newline>\<newline>''. is_space c" by (simp add: is_space_def)
  have h2: "''a'' = [] \<or> \<not> is_space (last ''a'')" by (simp add: is_space_def)
  have h3: "''b\<newline>'' = [] \<or> \<not> is_space (hd ''b\<newline>'')" by (simp add: is_space_def)
  have c: "collapse_run ''\<newline>\<newline>\<newline>\<newline>'' = ''\<newline>\<newline>''" by (simp add: collapse_run_def)
  have a: "normalize_blank_lines ''a'' = ''a''"
    by (simp add: normalize_blank_lines_def rx_blank_lines_def)
  have b: "normalize_blank_lines ''b\<newline>'' = ''b\<newline>''"
    by (simp add: normalize_blank_lines_def rx_blank_lines_def)
  from C8_blank_line_runs_collapse [OF h1 h2 h3] a b c h2 h3 is_space_nl
  show ?thesis by simp
qed

text \<open>
  C3 (as stated): a second run on the output of a first run is a no-op, each locator
  answering that it finds nothing. A first run of \<^verbatim>\<open>clean_habit_modal.py\<close> can join the
  text on both sides of a removed match into a new match: the second run then finds it,
  removes it and writes a different file.
\<close>

theorem C3_counterexample:
  "written (clean_habit_modal
      (''c'' @ ''const daysOfWeek = ['S', 'M', 'T', 'W', 'T', 'F', 'S'];''
        @ ''onst daysOfWeek = ['S', 'M', 'T', 'W', 'T', 'F', 'S'];''
        @ modal_start_marker @ ''x'' @ modal_end_marker))
     = Some (''const daysOfWeek = ['S', 'M', 'T', 'W', 'T', 'F', 'S'];'' @ modal_end_marker)
   \<and> rx_found rx_daysOfWeek
        (''const daysOfWeek = ['S', 'M', 'T', 'W', 'T', 'F', 'S'];'' @ modal_end_marker)
   \<and> written (clean_habit_modal
        (''const daysOfWeek = ['S', 'M', 'T', 'W', 'T', 'F', 'S'];'' @ modal_end_marker))
     = Some modal_end_marker
   \<and> modal_end_marker \<noteq> ''const daysOfWeek = ['S', 'M', 'T', 'W', 'T', 'F', 'S'];'' @ modal_end_marker"
  by code_simp

text \<open>
  C3 (amended): a second run of \<^verbatim>\<open>clean_habit_modal.py\<close> is a no-op whenever no
  locator of the script finds anything in the output of the first run: every pass then
  leaves the buffer as it is, the marker cut prints that it found nothing, and the text
  written is the text read. A second run of \<^verbatim>\<open>fix_tracker_grid.py\<close> always finds the
  section marker again, in the same line, because the first run keeps that line; when
  the line ends with a line feed the second run writes the very text it read.
\<close>

theorem C3_second_run:
  "(no_locator_matches content \<longrightarrow>
      clean_habit_modal content =
        \<lparr> written = Some content,
          printed = [''Could not find Old Weekly Config Block markers'',
                     ''Successfully cleaned AddHabitModal.tsx''],
          exit_status = 0 \<rparr>)
   \<and> (find_cutoff (readlines file) = Some i \<longrightarrow>
      (\<exists>out. written (fix_tracker_grid file) = Some out
           \<and> find_cutoff (readlines out) = Some i
           \<and> (last (readlines file ! i) = CHR 0x0A \<longrightarrow>
                written (fix_tracker_grid out) = Some out)))"
proof -
  have modal: "clean_habit_modal content =
        \<lparr> written = Some content,
          printed = [''Could not find Old Weekly Config Block markers'',
                     ''Successfully cleaned AddHabitModal.tsx''],
          exit_status = 0 \<rparr>" if m: "no_locator_matches content"
  proof -
    from m have p: "modal_passes content = content" by (rule modal_passes_no_match)
    from m have nf: "\<not> markers_found modal_start_marker modal_end_marker content"
      and nb: "\<not> rx_found rx_blank_lines content" by (simp_all add: no_locator_matches_def)
    from nf have cut: "marker_cut modal_start_marker modal_end_marker content = content"
      by (intro marker_cut_not_found) (auto simp add: markers_found_def)
    from nb have "normalize_blank_lines content = content"
      by (simp add: normalize_blank_lines_def re_sub_no_match)
    with p nf cut show ?thesis by (simp add: clean_habit_modal_def Let_def)
  qed
  have grid: "\<exists>out. written (fix_tracker_grid file) = Some out
           \<and> find_cutoff (readlines out) = Some i
           \<and> (last (readlines file ! i) = CHR 0x0A \<longrightarrow>
                written (fix_tracker_grid out) = Some out)"
    if c: "find_cutoff (readlines file) = Some i"
  proof -
    let ?out = "concat (take (Suc i) (readlines file)) @ new_bottom"
    have w: "written (fix_tracker_grid file) = Some ?out"
      using c by (simp add: fix_tracker_grid_def Let_def)
    have again: "find_cutoff (readlines ?out) = Some i"
      by (rule fix_tracker_grid_finds_again [OF c])
    have "written (fix_tracker_grid ?out) = Some ?out" if "last (readlines file ! i) = CHR 0x0A"
      by (rule fix_tracker_grid_second_run(3) [OF c that])
    with w again show ?thesis by blast
  qed
  from modal grid show ?thesis by blast
qed

theorem C3_second_run_witness:
  "written (clean_habit_modal (modal_start_marker @ ''x'' @ modal_end_marker))
     = Some modal_end_marker
   \<and> no_locator_matches modal_end_marker
   \<and> clean_habit_modal modal_end_marker =
        \<lparr> written = Some modal_end_marker,
          printed = [''Could not find Old Weekly Config Block markers'',
                     ''Successfully cleaned AddHabitModal.tsx''],
          exit_status = 0 \<rparr>
   \<and> find_cutoff (readlines (''a\<newline>'' @ section_marker @ ''\<newline>b\<newline>'')) = Some 1
   \<and> last (readlines (''a\<newline>'' @ section_marker @ ''\<newline>b\<newline>'') ! 1) = CHR 0x0A
   \<and> (\<exists>out. written (fix_tracker_grid (''a\<newline>'' @ section_marker @ ''\<newline>b\<newline>'')) = Some out
           \<and> find_cutoff (readlines out) = Some 1
           \<and> written (fix_tracker_grid out) = Some out)"
proof -
  have first: "written (clean_habit_modal (modal_start_marker @ ''x'' @ modal_end_marker))
     = Some modal_end_marker" by code_simp
  have h1: "no_locator_matches modal_end_marker" by code_simp
  have h2: "find_cutoff (readlines (''a\<newline>'' @ section_marker @ ''\<newline>b\<newline>'')) = Some 1"
    by (simp add: find_cutoff_def str_in_def section_marker_def section_marker_spaced_def)
  have h3: "last (readlines (''a\<newline>'' @ section_marker @ ''\<newline>b\<newline>'') ! 1) = CHR 0x0A"
    by (simp add: section_marker_def)
  from C3_second_run [of modal_end_marker "''a\<newline>'' @ section_marker @ ''\<newline>b\<newline>''" 1]
    first h1 h2 h3
  show ?thesis by blast
qed

end
